theory Spec2Isabelle
  imports
    Main
    "HOL-Library.AList"
    "HOL-Library.Sublist"
    "HOL-Library.Char_ord"
    "HOL-Library.List_Lexorder"
    "HOL-Library.Product_Lexorder"
begin

section \<open>habrss: the feed merge-and-filter engine\<close>

text \<open>
  A shallow embedding of \<^verbatim>\<open>habrss.py\<close>. Python strings are \<open>string\<close>, a
  \<^verbatim>\<open>dict\<close> is an association list in insertion order with distinct keys
  (\<open>AList.update\<close> overwrites in place or appends, as item assignment does),
  a generator is the list of the values it yields, an exception is a value of \<open>error\<close>.
\<close>

subsection \<open>Data model\<close>

datatype error =
    AttributeError      \<comment> \<open>attribute access on \<^verbatim>\<open>None\<close>\<close>
  | ValidationError     \<comment> \<open>pydantic: a value does not fit the declared field type\<close>
  | RegexError          \<comment> \<open>\<^verbatim>\<open>re.error\<close>: the pattern does not compile\<close>
  | XMLParseError       \<comment> \<open>\<^verbatim>\<open>ET.ParseError\<close>: the document is not well-formed\<close>
  | LoadError           \<comment> \<open>the configuration file cannot be opened or is not YAML\<close>

record FilterConfig =
  title :: "string option"
  category :: "string option"
  creator :: "string option"

record FeedConfig =
  name :: string
  urls :: "string list"
  exclude :: "FilterConfig list"
  include' :: "FilterConfig list"


record FeedItem =
  title :: string
  guid :: string
  guid_permalink :: string
  link :: string
  description :: string
  pub_date :: string
  categories :: "string list"
  creator :: string

record FilterStatistics =
  passed :: "(string \<times> FeedItem) list"
  blocked :: "(string \<times> FeedItem) list"

subsection \<open>Deduplication: \<^verbatim>\<open>FeedItem.unicalize\<close>\<close>

text \<open>
  The loop of \<^verbatim>\<open>unicalize\<close> with its \<^verbatim>\<open>seen_guids\<close> set as an argument; the
  generator's output is the list of the items it yields.
\<close>

fun unicalize_loop :: "string set \<Rightarrow> FeedItem list \<Rightarrow> FeedItem list" where
  "unicalize_loop seen_guids [] = []"
| "unicalize_loop seen_guids (item # items) =
     (if guid item \<notin> seen_guids
      then item # unicalize_loop (insert (guid item) seen_guids) items
      else unicalize_loop seen_guids items)"

definition unicalize :: "FeedItem list \<Rightarrow> FeedItem list" where
  "unicalize items = unicalize_loop {} items"

subsection \<open>The statistics ledger: \<^verbatim>\<open>FilterStatistics.add\<close>\<close>

definition dict_contains :: "('k \<times> 'v) list \<Rightarrow> 'k \<Rightarrow> bool" where
  "dict_contains d key = (key \<in> set (map fst d))"

definition dict_values :: "('k \<times> 'v) list \<Rightarrow> 'v list" where
  "dict_values d = map snd d"

text \<open>
  \<^verbatim>\<open>add\<close> picks \<^verbatim>\<open>target\<close> and \<^verbatim>\<open>other\<close> by the flag, deletes the title from
  \<^verbatim>\<open>other\<close> when it is there, and assigns the item in \<^verbatim>\<open>target\<close>.
\<close>

definition add :: "FilterStatistics \<Rightarrow> FeedItem \<Rightarrow> bool \<Rightarrow> FilterStatistics" where
  "add stats item is_passed =
     (let target = (if is_passed then passed stats else blocked stats);
          other = (if \<not> is_passed then passed stats else blocked stats);
          key = FeedItem.title item;
          other = (if dict_contains other key then AList.delete key other else other);
          target = AList.update key item target
      in if is_passed then \<lparr>passed = target, blocked = other\<rparr>
         else \<lparr>passed = other, blocked = target\<rparr>)"

definition empty_stats :: FilterStatistics where
  "empty_stats = \<lparr>passed = [], blocked = []\<rparr>"

text \<open>A finite sequence of \<^verbatim>\<open>add\<close> calls, in order, from a given ledger.\<close>

definition add_all :: "FilterStatistics \<Rightarrow> (FeedItem \<times> bool) list \<Rightarrow> FilterStatistics" where
  "add_all stats calls = foldl (\<lambda>s (item, is_passed). add s item is_passed) stats calls"

text \<open>The most recent call of a sequence that carries a given title, if any.\<close>

definition last_call :: "string \<Rightarrow> (FeedItem \<times> bool) list \<Rightarrow> (FeedItem \<times> bool) option" where
  "last_call t calls = List.find (\<lambda>(item, is_passed). FeedItem.title item = t) (rev calls)"

subsection \<open>Rule evaluation: \<^verbatim>\<open>check_filters\<close>\<close>

text \<open>
  The regular-expression library is a parameter: an engine maps a pattern to \<open>None\<close>
  when \<^verbatim>\<open>re\<close> cannot compile it (it raises \<^verbatim>\<open>re.error\<close>) and otherwise to the
  predicate "the whole string matches, ignoring case". \<^verbatim>\<open>re.fullmatch(p, s, re.IGNORECASE)\<close>
  compiles the pattern and then matches.
\<close>

type_synonym regex_engine = "string \<Rightarrow> (string \<Rightarrow> bool) option"

definition re_fullmatch :: "regex_engine \<Rightarrow> string \<Rightarrow> string \<Rightarrow> error + bool" where
  "re_fullmatch re pattern s =
     (case re pattern of None \<Rightarrow> Inl RegexError | Some m \<Rightarrow> Inr (m s))"

text \<open>\<^verbatim>\<open>any(re.fullmatch(p, c, ...) for c in cs)\<close>: stops at the first match.\<close>

fun any_fullmatch :: "regex_engine \<Rightarrow> string \<Rightarrow> string list \<Rightarrow> error + bool" where
  "any_fullmatch re pattern [] = Inr False"
| "any_fullmatch re pattern (c # cs) =
     (case re_fullmatch re pattern c of
        Inl e \<Rightarrow> Inl e
      | Inr True \<Rightarrow> Inr True
      | Inr False \<Rightarrow> any_fullmatch re pattern cs)"

text \<open>\<^verbatim>\<open>p is not None and <test p>\<close>: the test runs only for a pattern that is set.\<close>

definition when_set :: "string option \<Rightarrow> (string \<Rightarrow> error + bool) \<Rightarrow> error + bool" where
  "when_set pattern test = (case pattern of None \<Rightarrow> Inr False | Some p \<Rightarrow> test p)"

text \<open>\<^verbatim>\<open>if <a>: return True\<close> followed by the rest \<open>b\<close> of the function.\<close>

definition return_true_or :: "error + bool \<Rightarrow> error + bool \<Rightarrow> error + bool" where
  "return_true_or a b = (case a of Inl e \<Rightarrow> Inl e | Inr True \<Rightarrow> Inr True | Inr False \<Rightarrow> b)"

fun check_filters :: "regex_engine \<Rightarrow> FeedItem \<Rightarrow> FilterConfig list \<Rightarrow> error + bool" where
  "check_filters re item [] = Inr False"
| "check_filters re item (filt # filters) =
     return_true_or
       (when_set (FilterConfig.title filt) (\<lambda>p. re_fullmatch re p (FeedItem.title item)))
       (return_true_or
         (when_set (category filt) (\<lambda>p. any_fullmatch re p (categories item)))
         (return_true_or
           (when_set (FilterConfig.creator filt) (\<lambda>p. re_fullmatch re p (FeedItem.creator item)))
           (check_filters re item filters)))"

subsection \<open>The pipeline: \<^verbatim>\<open>process_feed_items\<close>\<close>

text \<open>
  The condition of the \<^verbatim>\<open>if\<close> in \<^verbatim>\<open>process_feed_items\<close>:
  \<^verbatim>\<open>check_filters(item, exclude) and not check_filters(item, include)\<close>. The include
  rules are evaluated only when an exclude rule matched.
\<close>

definition is_blocked :: "regex_engine \<Rightarrow> FeedItem \<Rightarrow> FeedConfig \<Rightarrow> error + bool" where
  "is_blocked re item feed_config =
     (case check_filters re item (exclude feed_config) of
        Inl e \<Rightarrow> Inl e
      | Inr False \<Rightarrow> Inr False
      | Inr True \<Rightarrow>
          (case check_filters re item (include' feed_config) of
             Inl e \<Rightarrow> Inl e
           | Inr b \<Rightarrow> Inr (\<not> b)))"

text \<open>
  The generator run to its end by its consumer: the items yielded, the exception that
  ended it (if any), and the ledger as the run left it.
\<close>

fun process_loop ::
  "regex_engine \<Rightarrow> FeedConfig \<Rightarrow> FeedItem list \<Rightarrow> FilterStatistics \<Rightarrow>
     FeedItem list \<times> error option \<times> FilterStatistics" where
  "process_loop re feed_config [] stats = ([], None, stats)"
| "process_loop re feed_config (item # items) stats =
     (case is_blocked re item feed_config of
        Inl e \<Rightarrow> ([], Some e, stats)
      | Inr True \<Rightarrow> process_loop re feed_config items (add stats item False)
      | Inr False \<Rightarrow>
          (case process_loop re feed_config items (add stats item True) of
             (out, err, stats') \<Rightarrow> (item # out, err, stats')))"

definition process_feed_items ::
  "regex_engine \<Rightarrow> FeedItem list \<Rightarrow> FeedConfig \<Rightarrow> FilterStatistics \<Rightarrow>
     FeedItem list \<times> error option \<times> FilterStatistics" where
  "process_feed_items re items feed_config stats =
     process_loop re feed_config (unicalize items) stats"

subsection \<open>The aggregated views of the ledger\<close>

text \<open>
  \<^verbatim>\<open>collections.Counter\<close> over an iterable: a dict from each element to the number of
  its occurrences, keys in order of first occurrence. \<^verbatim>\<open>sorted(..., reverse=True)\<close> is
  the stable descending sort: reverse, sort stably, reverse.
\<close>

definition counter_step :: "('a \<times> int) list \<Rightarrow> 'a \<Rightarrow> ('a \<times> int) list" where
  "counter_step d x = AList.update x ((case map_of d x of None \<Rightarrow> 0 | Some n \<Rightarrow> n) + 1) d"

definition Counter :: "'a list \<Rightarrow> ('a \<times> int) list" where
  "Counter xs = foldl counter_step [] xs"

definition sorted_reverse :: "('a :: linorder) list \<Rightarrow> 'a list" where
  "sorted_reverse xs = rev (sort (rev xs))"

definition passed_categories :: "FilterStatistics \<Rightarrow> (int \<times> string) list" where
  "passed_categories stats =
     sorted_reverse (map (\<lambda>(key, count). (count, key))
       (Counter (concat (map categories (dict_values (passed stats))))))"

definition blocked_categories :: "FilterStatistics \<Rightarrow> (int \<times> string) list" where
  "blocked_categories stats =
     sorted_reverse (map (\<lambda>(key, count). (count, key))
       (Counter (concat (map categories (dict_values (blocked stats))))))"

definition passed_creators :: "FilterStatistics \<Rightarrow> (int \<times> string) list" where
  "passed_creators stats =
     sorted_reverse (map (\<lambda>(key, count). (count, key))
       (Counter (map FeedItem.creator (dict_values (passed stats)))))"

definition blocked_creators :: "FilterStatistics \<Rightarrow> (int \<times> string) list" where
  "blocked_creators stats =
     sorted_reverse (map (\<lambda>(key, count). (count, key))
       (Counter (map FeedItem.creator (dict_values (blocked stats)))))"

subsection \<open>Link cleanup\<close>

text \<open>
  \<^verbatim>\<open>s.split(sep)[0]\<close> for a non-empty separator: the part of \<open>s\<close> before the first
  occurrence of \<open>sep\<close>, or all of \<open>s\<close> when there is none.
\<close>

fun split_head :: "string \<Rightarrow> string \<Rightarrow> string" where
  "split_head sep [] = []"
| "split_head sep (c # cs) = (if prefix sep (c # cs) then [] else c # split_head sep cs)"

definition cleanup_link :: "string \<Rightarrow> string" where
  "cleanup_link link_text = split_head ''?utm'' link_text"

subsection \<open>Element trees and the feed parser\<close>

text \<open>
  An \<^verbatim>\<open>xml.etree.ElementTree.Element\<close>: tag, attribute dict, text (\<^verbatim>\<open>None\<close> for
  an element without character data) and child elements in document order. A namespaced
  tag is spelled \<^verbatim>\<open>{uri}local\<close>, as ElementTree does.
\<close>

datatype Element =
  Element (tag: string) (attrib: "(string \<times> string) list") (text_of: "string option")
    (children: "Element list")

definition Element_find :: "string \<Rightarrow> Element \<Rightarrow> Element option" where
  "Element_find t e = List.find (\<lambda>c. tag c = t) (children e)"

definition Element_findall :: "string \<Rightarrow> Element \<Rightarrow> Element list" where
  "Element_findall t e = filter (\<lambda>c. tag c = t) (children e)"

definition dc_creator :: string where
  "dc_creator = ''{http://purl.org/dc/elements/1.1/}creator''"

text \<open>
  At run time \<^verbatim>\<open>dataclass\<close> is \<^verbatim>\<open>pydantic.dataclasses.dataclass\<close>, whose constructor
  validates the arguments against the declared field types: \<^verbatim>\<open>None\<close> for a field
  declared \<^verbatim>\<open>str\<close> (or inside a \<^verbatim>\<open>list[str]\<close>) raises a validation error. The
  arguments are the values \<^verbatim>\<open>parse_feed\<close> computes, each a string or \<^verbatim>\<open>None\<close>.
\<close>

definition FeedItem_init ::
  "string option \<Rightarrow> string option \<Rightarrow> string option \<Rightarrow> string option \<Rightarrow> string option \<Rightarrow>
   string option \<Rightarrow> string option list \<Rightarrow> string option \<Rightarrow> error + FeedItem" where
  "FeedItem_init title_arg guid_arg guid_permalink_arg link_arg description_arg pub_date_arg
     categories_arg creator_arg =
     (if title_arg \<noteq> None \<and> guid_arg \<noteq> None \<and> guid_permalink_arg \<noteq> None \<and>
         link_arg \<noteq> None \<and> description_arg \<noteq> None \<and> pub_date_arg \<noteq> None \<and>
         list_all (\<lambda>c. c \<noteq> None) categories_arg \<and> creator_arg \<noteq> None
      then Inr \<lparr>FeedItem.title = the title_arg, guid = the guid_arg,
                guid_permalink = the guid_permalink_arg, link = the link_arg,
                description = the description_arg, pub_date = the pub_date_arg,
                categories = map the categories_arg, creator = the creator_arg\<rparr>
      else Inl ValidationError)"

text \<open>
  The body of the loop of \<^verbatim>\<open>parse_feed\<close> for one item node. \<^verbatim>\<open>item.find(t)\<close> is
  \<^verbatim>\<open>None\<close> when there is no such child, and \<^verbatim>\<open>.text\<close> or \<^verbatim>\<open>.attrib\<close> of
  \<^verbatim>\<open>None\<close> raises AttributeError, as does \<^verbatim>\<open>cleanup_link(None)\<close>.
\<close>

definition deref :: "'a option \<Rightarrow> ('a \<Rightarrow> error + 'b) \<Rightarrow> error + 'b" where
  "deref x f = (case x of None \<Rightarrow> Inl AttributeError | Some v \<Rightarrow> f v)"

definition parse_item :: "Element \<Rightarrow> error + FeedItem" where
  "parse_item item =
     deref (Element_find ''title'' item) (\<lambda>title_elt.
     deref (Element_find ''guid'' item) (\<lambda>guid_elt.
     deref (Element_find ''link'' item) (\<lambda>link_elt.
     deref (text_of link_elt) (\<lambda>link_text.
     deref (Element_find ''description'' item) (\<lambda>description_elt.
     deref (Element_find ''pubDate'' item) (\<lambda>pub_date_elt.
     deref (Element_find dc_creator item) (\<lambda>creator_elt.
       FeedItem_init (text_of title_elt) (text_of guid_elt)
         (map_of (attrib guid_elt) ''isPermaLink'') (Some (cleanup_link link_text))
         (text_of description_elt) (text_of pub_date_elt)
         (map text_of (Element_findall ''category'' item)) (text_of creator_elt))))))))"

text \<open>
  The generator over the item nodes: the entries yielded before the first failure, and
  the failure.
\<close>

fun parse_items :: "Element list \<Rightarrow> FeedItem list \<times> error option" where
  "parse_items [] = ([], None)"
| "parse_items (item # items) =
     (case parse_item item of
        Inl e \<Rightarrow> ([], Some e)
      | Inr entry \<Rightarrow> (case parse_items items of (out, err) \<Rightarrow> (entry # out, err)))"

text \<open>\<^verbatim>\<open>root.findall('channel/item')\<close>: the item children of the channel children.\<close>

definition channel_items :: "Element \<Rightarrow> Element list" where
  "channel_items root = concat (map (Element_findall ''item'') (Element_findall ''channel'' root))"

text \<open>
  \<^verbatim>\<open>ET.fromstring\<close> is a parameter: it gives the root element of a document, or fails
  on a document that is not well-formed. The document type is left open.
\<close>

definition parse_feed :: "('d \<Rightarrow> error + Element) \<Rightarrow> 'd \<Rightarrow> FeedItem list \<times> error option" where
  "parse_feed fromstring content =
     (case fromstring content of
        Inl e \<Rightarrow> ([], Some e)
      | Inr root \<Rightarrow> parse_items (channel_items root))"

subsection \<open>The feed serializer\<close>

definition SubElement_text :: "string \<Rightarrow> string \<Rightarrow> Element" where
  "SubElement_text t s = Element t [] (Some s) []"

definition guid_element :: "FeedItem \<Rightarrow> Element" where
  "guid_element item =
     Element ''guid''
       (if guid_permalink item \<noteq> [] then [(''isPermaLink'', guid_permalink item)] else [])
       (Some (guid item)) []"

definition item_element :: "FeedItem \<Rightarrow> Element" where
  "item_element item =
     Element ''item'' [] None
       ([SubElement_text ''title'' (FeedItem.title item),
         guid_element item,
         SubElement_text ''link'' (link item),
         SubElement_text ''description'' (description item),
         SubElement_text ''pubDate'' (pub_date item)]
        @ map (SubElement_text ''category'') (categories item)
        @ [SubElement_text dc_creator (FeedItem.creator item)])"

definition feed_tree :: "FeedItem list \<Rightarrow> Element" where
  "feed_tree items =
     Element ''rss'' [] None
       [SubElement_text ''title'' ''habrss feed'',
        Element ''channel'' [] None (map item_element items)]"

text \<open>\<^verbatim>\<open>ET.tostring\<close> is a parameter as well.\<close>

definition dump_feed :: "(Element \<Rightarrow> 'd) \<Rightarrow> FeedItem list \<Rightarrow> 'd" where
  "dump_feed tostring items = tostring (feed_tree items)"

subsection \<open>Loading the configuration\<close>










subsection \<open>Library instances for concrete runs\<close>

text \<open>
  The theorems below hold for every regular-expression engine and every XML library.
  Concrete runs need one of each. \<open>re_lite\<close> is \<^verbatim>\<open>re\<close> with \<^verbatim>\<open>IGNORECASE\<close> on
  the patterns built from ordinary characters, \<^verbatim>\<open>.\<close> (any character but a newline)
  and a postfix \<^verbatim>\<open>*\<close>; a \<^verbatim>\<open>*\<close> with nothing to repeat does not compile, as in
  \<^verbatim>\<open>re\<close> ("nothing to repeat", "multiple repeat"). The other operators of \<^verbatim>\<open>re\<close>
  are outside this fragment and reported as not compiling; no run below uses them.
\<close>

datatype re_atom = Lit char | AnyChar

definition re_special :: "char \<Rightarrow> bool" where
  "re_special c = (c = CHR 0x5C \<or> c \<in> set ''^$+?{}[]()|'')"

fun re_parse :: "string \<Rightarrow> (re_atom \<times> bool) list option" where
  "re_parse [] = Some []"
| "re_parse (c # cs) =
     (if c = CHR ''*'' \<or> re_special c then None
      else
        (let a = (if c = CHR ''.'' then AnyChar else Lit c) in
         case cs of
           [] \<Rightarrow> Some [(a, False)]
         | d # ds \<Rightarrow>
             if d = CHR ''*'' then map_option ((#) (a, True)) (re_parse ds)
             else map_option ((#) (a, False)) (re_parse cs)))"

definition lower :: "char \<Rightarrow> char" where
  "lower c = (if CHR ''A'' \<le> c \<and> c \<le> CHR ''Z'' then char_of (of_char c + (32 :: nat)) else c)"

fun atom_matches :: "re_atom \<Rightarrow> char \<Rightarrow> bool" where
  "atom_matches (Lit c) d = (lower c = lower d)"
| "atom_matches AnyChar d = (d \<noteq> CHR 0x0A)"

fun re_match :: "(re_atom \<times> bool) list \<Rightarrow> string \<Rightarrow> bool" where
  "re_match [] s = (s = [])"
| "re_match ((a, False) # ps) [] = False"
| "re_match ((a, False) # ps) (c # s) = (atom_matches a c \<and> re_match ps s)"
| "re_match ((a, True) # ps) [] = re_match ps []"
| "re_match ((a, True) # ps) (c # s) =
     (re_match ps (c # s) \<or> (atom_matches a c \<and> re_match ((a, True) # ps) s))"

definition re_lite :: regex_engine where
  "re_lite pattern = map_option re_match (re_parse pattern)"

text \<open>
  An XML library on documents that are the trees themselves: writing keeps the tree,
  reading gives it back with every empty text as \<^verbatim>\<open>None\<close> (ElementTree writes an
  element with empty text as an empty element and reads an empty element with text
  \<^verbatim>\<open>None\<close>).
\<close>

fun reread :: "Element \<Rightarrow> Element" where
  "reread (Element t a x cs) = Element t a (if x = Some [] then None else x) (map reread cs)"

definition tree_tostring :: "Element \<Rightarrow> Element" where
  "tree_tostring root = root"

definition tree_fromstring :: "Element \<Rightarrow> error + Element" where
  "tree_fromstring doc = Inr (reread doc)"

subsection \<open>The specification's notions\<close>

text \<open>Every pattern that is set in a rule list compiles.\<close>

definition pattern_compiles :: "regex_engine \<Rightarrow> string option \<Rightarrow> bool" where
  "pattern_compiles re pattern = (case pattern of None \<Rightarrow> True | Some p \<Rightarrow> re p \<noteq> None)"

definition valid_rules :: "regex_engine \<Rightarrow> FilterConfig list \<Rightarrow> bool" where
  "valid_rules re rules =
     list_all (\<lambda>filt. pattern_compiles re (FilterConfig.title filt) \<and>
                       pattern_compiles re (category filt) \<and>
                       pattern_compiles re (FilterConfig.creator filt)) rules"

text \<open>Rule evaluation on an entry returns, rather than raising.\<close>

definition evaluates :: "regex_engine \<Rightarrow> FeedConfig \<Rightarrow> FeedItem \<Rightarrow> bool" where
  "evaluates re feed_config item =
     (case is_blocked re item feed_config of Inl e \<Rightarrow> False | Inr b \<Rightarrow> True)"

text \<open>
  The specification's \<open>matches\<close> and \<open>classify\<close>, in its words: a pattern that is set
  fully matches (ignoring case) a field value; a rule matches an entry when its title
  pattern matches the title, or its category pattern one of the categories, or its
  creator pattern the creator; an entry passes unless an exclude rule matches it and no
  include rule does.
\<close>

definition spec_pattern_matches :: "regex_engine \<Rightarrow> string option \<Rightarrow> string list \<Rightarrow> bool" where
  "spec_pattern_matches re pattern field_values =
     (case pattern of
        None \<Rightarrow> False
      | Some p \<Rightarrow> (case re p of None \<Rightarrow> False | Some m \<Rightarrow> list_ex m field_values))"

definition spec_rule_matches :: "regex_engine \<Rightarrow> FilterConfig \<Rightarrow> FeedItem \<Rightarrow> bool" where
  "spec_rule_matches re filt item =
     (spec_pattern_matches re (FilterConfig.title filt) [FeedItem.title item] \<or>
      spec_pattern_matches re (category filt) (categories item) \<or>
      spec_pattern_matches re (FilterConfig.creator filt) [FeedItem.creator item])"

definition spec_matches :: "regex_engine \<Rightarrow> FeedItem \<Rightarrow> FilterConfig list \<Rightarrow> bool" where
  "spec_matches re item rules = list_ex (\<lambda>filt. spec_rule_matches re filt item) rules"

definition spec_classify :: "regex_engine \<Rightarrow> FeedConfig \<Rightarrow> FeedItem \<Rightarrow> bool" where
  "spec_classify re feed_config item =
     (\<not> (spec_matches re item (exclude feed_config) \<and>
         \<not> spec_matches re item (include' feed_config)))"





text \<open>
  What a count view of a list of labels is: it holds the pair (number of occurrences,
  label) for exactly the labels that occur, each label once, in descending order of the
  count and, among equal counts, in descending order of the label.
\<close>

definition count_view_of :: "('a :: linorder) list \<Rightarrow> (int \<times> 'a) list \<Rightarrow> bool" where
  "count_view_of labels view =
     ((\<forall>n c. (n, c) \<in> set view \<longleftrightarrow> c \<in> set labels \<and> n = int (count_list labels c)) \<and>
      distinct (map snd view) \<and>
      sorted_wrt (\<lambda>a b. fst a > fst b \<or> (fst a = fst b \<and> snd a > snd b)) view)"

text \<open>
  The sub-fields the specification calls mandatory, by tag, and an item node without its
  category children.
\<close>

definition mandatory_tags :: "string list" where
  "mandatory_tags = [''title'', ''guid'', ''link'', ''description'', ''pubDate'', dc_creator]"

definition without_categories :: "Element \<Rightarrow> Element" where
  "without_categories e =
     Element (tag e) (attrib e) (text_of e) (filter (\<lambda>c. tag c \<noteq> ''category'') (children e))"

text \<open>
  The specification's ParseError is the failure of the parser on its input. The source
  declares no exception of its own: these are the exceptions \<^verbatim>\<open>parse_feed\<close> raises.
\<close>

definition spec_ParseError :: "error \<Rightarrow> bool" where
  "spec_ParseError e = (e = XMLParseError \<or> e = AttributeError \<or> e = ValidationError)"

text \<open>The ledger mirrors the most recent call for every title.\<close>

definition ledger_ok :: "FilterStatistics \<Rightarrow> (FeedItem \<times> bool) list \<Rightarrow> bool" where
  "ledger_ok s calls = (\<forall>t.
      (case last_call t calls of
         None \<Rightarrow> map_of (passed s) t = None \<and> map_of (blocked s) t = None
       | Some (item, is_passed) \<Rightarrow>
           map_of (if is_passed then passed s else blocked s) t = Some item \<and>
           map_of (if is_passed then blocked s else passed s) t = None))"

text \<open>Entries for concrete runs.\<close>

definition example_item :: "string \<Rightarrow> string \<Rightarrow> string \<Rightarrow> string list \<Rightarrow> FeedItem" where
  "example_item t g c cats =
     \<lparr>FeedItem.title = t, guid = g, guid_permalink = ''true'',
      link = ''https://example.com/a'', description = ''text'', pub_date = ''today'',
      categories = cats, creator = c\<rparr>"

definition title_rule :: "string \<Rightarrow> FilterConfig" where
  "title_rule p = \<lparr>FilterConfig.title = Some p, category = None, FilterConfig.creator = None\<rparr>"

definition creator_rule :: "string \<Rightarrow> FilterConfig" where
  "creator_rule p = \<lparr>FilterConfig.title = None, category = None, FilterConfig.creator = Some p\<rparr>"

text \<open>The feed of the specification's example.\<close>

definition example_config :: FeedConfig where
  "example_config =
     \<lparr>name = ''tech'', urls = [''https://a.example/rss'', ''https://b.example/rss''],
      exclude = [creator_rule ''spam.*''], include' = [title_rule ''Important.*'']\<rparr>"

text \<open>An item node with a title and nothing else, and a document that holds it.\<close>

definition broken_item :: Element where
  "broken_item = Element ''item'' [] None [SubElement_text ''title'' ''No guid'']"

definition example_document :: Element where
  "example_document =
     Element ''rss'' [] None
       [Element ''channel'' [] None
          [item_element (example_item ''A'' ''g1'' ''ann'' [''news'']), broken_item]]"



text \<open>
  A document whose only item has every mandatory sub-field, with text, and a guid element
  without the \<^verbatim>\<open>isPermaLink\<close> attribute.
\<close>

definition noflag_document :: Element where
  "noflag_document =
     Element ''rss'' [] None
       [Element ''channel'' [] None
          [Element ''item'' [] None
             [SubElement_text ''title'' ''A'',
              SubElement_text ''guid'' ''g1'',
              SubElement_text ''link'' ''https://example.com/a'',
              SubElement_text ''description'' ''text'',
              SubElement_text ''pubDate'' ''today'',
              SubElement_text dc_creator ''ann'']]]"

section \<open>Deduplication\<close>








section \<open>The ledger\<close>

lemma map_of_passed_add:
  "map_of (passed (add s i p)) =
     (if p then (map_of (passed s))(FeedItem.title i \<mapsto> i)
      else (map_of (passed s))(FeedItem.title i := None))"
  by (auto simp: add_def Let_def dict_contains_def update_conv' delete_conv' fun_eq_iff
      map_of_eq_None_iff)

lemma map_of_blocked_add:
  "map_of (blocked (add s i p)) =
     (if p then (map_of (blocked s))(FeedItem.title i := None)
      else (map_of (blocked s))(FeedItem.title i \<mapsto> i))"
  by (auto simp: add_def Let_def dict_contains_def update_conv' delete_conv' fun_eq_iff
      map_of_eq_None_iff)

lemma distinct_add:
  "distinct (map fst (passed s)) \<Longrightarrow> distinct (map fst (blocked s)) \<Longrightarrow>
   distinct (map fst (passed (add s i p))) \<and> distinct (map fst (blocked (add s i p)))"
  by (auto simp: add_def Let_def distinct_update distinct_delete)

lemma add_all_snoc: "add_all s (calls @ [(i, p)]) = add (add_all s calls) i p"
  by (simp add: add_all_def)

lemma last_call_snoc:
  "last_call t (calls @ [(i, p)]) =
     (if FeedItem.title i = t then Some (i, p) else last_call t calls)"
  by (simp add: last_call_def)

lemma ledger_ok_add:
  assumes "ledger_ok s calls"
  shows "ledger_ok (add s i p) (calls @ [(i, p)])"
  unfolding ledger_ok_def last_call_snoc
proof
  fix t
  from assms have "case last_call t calls of
       None \<Rightarrow> map_of (passed s) t = None \<and> map_of (blocked s) t = None
     | Some (item, is_passed) \<Rightarrow>
         map_of (if is_passed then passed s else blocked s) t = Some item \<and>
         map_of (if is_passed then blocked s else passed s) t = None"
    unfolding ledger_ok_def by blast
  then show "case if FeedItem.title i = t then Some (i, p) else last_call t calls of
       None \<Rightarrow> map_of (passed (add s i p)) t = None \<and> map_of (blocked (add s i p)) t = None
     | Some (item, is_passed) \<Rightarrow>
         map_of (if is_passed then passed (add s i p) else blocked (add s i p)) t = Some item \<and>
         map_of (if is_passed then blocked (add s i p) else passed (add s i p)) t = None"
    by (auto simp: map_of_passed_add map_of_blocked_add split: option.splits)
qed

lemma ledger_ok_add_all: "ledger_ok (add_all empty_stats calls) calls"
proof (induction calls rule: rev_induct)
  case Nil
  show ?case by (simp add: ledger_ok_def add_all_def empty_stats_def last_call_def)
next
  case (snoc c calls)
  obtain i p where c: "c = (i, p)" by (cases c)
  from ledger_ok_add[OF snoc] show ?case unfolding c add_all_snoc .
qed

lemma distinct_add_all:
  "distinct (map fst (passed (add_all empty_stats calls))) \<and>
   distinct (map fst (blocked (add_all empty_stats calls)))"
proof (induction calls rule: rev_induct)
  case Nil
  show ?case by (simp add: add_all_def empty_stats_def)
next
  case (snoc c calls)
  obtain i p where c: "c = (i, p)" by (cases c)
  from snoc show ?case unfolding c add_all_snoc using distinct_add by blast
qed

lemma ledger_ok_disjoint:
  assumes "ledger_ok s calls"
  shows "set (map fst (passed s)) \<inter> set (map fst (blocked s)) = {}"
proof -
  have "\<not> (map_of (passed s) t \<noteq> None \<and> map_of (blocked s) t \<noteq> None)" for t
    using assms unfolding ledger_ok_def
    by (cases "last_call t calls") (auto split: if_splits dest!: spec[of _ t])
  then show ?thesis
    by (auto simp: map_of_eq_None_iff)
qed

text \<open>
  Claim C1. After any finite sequence of \<open>add\<close> calls from the empty ledger, no title is
  a key of both mappings, and for every title: if no call carried it, it is in neither
  mapping; otherwise it is in the mapping selected by the flag of the most recent call
  with that title, mapped to the entry of that call, and it is not in the other mapping.
\<close>

theorem ledger_exclusive_and_recent:
  "set (map fst (passed (add_all empty_stats calls))) \<inter>
     set (map fst (blocked (add_all empty_stats calls))) = {} \<and>
   (\<forall>t. case last_call t calls of
      None \<Rightarrow> map_of (passed (add_all empty_stats calls)) t = None \<and>
              map_of (blocked (add_all empty_stats calls)) t = None
    | Some (item, is_passed) \<Rightarrow>
        map_of (if is_passed then passed (add_all empty_stats calls)
                else blocked (add_all empty_stats calls)) t = Some item \<and>
        map_of (if is_passed then blocked (add_all empty_stats calls)
                else passed (add_all empty_stats calls)) t = None)"
  using ledger_ok_add_all[of calls] ledger_ok_disjoint[OF ledger_ok_add_all[of calls]]
  unfolding ledger_ok_def by blast

section \<open>Link cleanup\<close>

lemma split_head_prefix: "prefix (split_head sep l) l"
  by (induction l) auto

lemma split_head_idem: "split_head sep (split_head sep l) = split_head sep l"
proof (induction l)
  case Nil
  show ?case by simp
next
  case (Cons c cs)
  show ?case
  proof (cases "prefix sep (c # cs)")
    case True
    then show ?thesis by simp
  next
    case False
    have "prefix (c # split_head sep cs) (c # cs)"
      using split_head_prefix[of sep cs] by simp
    with False have "\<not> prefix sep (c # split_head sep cs)"
      using prefix_order.trans by blast
    with False Cons show ?thesis by simp
  qed
qed

lemma split_head_absent:
  "\<not> (\<exists>p s. l = p @ sep @ s) \<Longrightarrow> split_head sep l = l"
proof (induction l)
  case Nil
  show ?case by simp
next
  case (Cons c cs)
  have np: "\<not> prefix sep (c # cs)"
  proof
    assume "prefix sep (c # cs)"
    then obtain s where "c # cs = [] @ sep @ s" by (auto simp: prefix_def)
    with Cons.prems show False by blast
  qed
  have "\<not> (\<exists>p s. cs = p @ sep @ s)"
  proof
    assume "\<exists>p s. cs = p @ sep @ s"
    then obtain p s where "cs = p @ sep @ s" by blast
    then have "c # cs = (c # p) @ sep @ s" by simp
    with Cons.prems show False by blast
  qed
  with Cons.IH np show ?case by simp
qed

lemma split_head_first:
  "sep \<noteq> [] \<Longrightarrow> l = p @ sep @ s \<Longrightarrow>
   (\<forall>p' s'. l = p' @ sep @ s' \<longrightarrow> length p \<le> length p') \<Longrightarrow> split_head sep l = p"
proof (induction p arbitrary: l)
  case Nil
  from Nil.prems(1,2) have "l \<noteq> []" by simp
  then obtain c cs where "l = c # cs" by (cases l) simp_all
  moreover have "prefix sep l" using Nil.prems(2) by simp
  ultimately show ?case by simp
next
  case (Cons a p)
  let ?t = "p @ sep @ s"
  have l: "l = a # ?t" using Cons.prems(2) by simp
  have np: "\<not> prefix sep l"
  proof
    assume "prefix sep l"
    then obtain s' where "l = [] @ sep @ s'" by (auto simp: prefix_def)
    with Cons.prems(3) have "length (a # p) \<le> length ([]::string)" by blast
    then show False by simp
  qed
  have min: "\<forall>p' s'. ?t = p' @ sep @ s' \<longrightarrow> length p \<le> length p'"
  proof (intro allI impI)
    fix p' s' assume "?t = p' @ sep @ s'"
    then have "l = (a # p') @ sep @ s'" using l by simp
    with Cons.prems(3) have "length (a # p) \<le> length (a # p')" by blast
    then show "length p \<le> length p'" by simp
  qed
  from Cons.IH[OF Cons.prems(1) refl min] np l show ?case by simp
qed


text \<open>
  Claim C7. \<open>cleanup_link\<close> returns its argument unchanged when \<^verbatim>\<open>?utm\<close> does not
  occur in it, and otherwise the prefix before the first occurrence of \<^verbatim>\<open>?utm\<close>
  (the occurrence with the shortest prefix); the two links of the specification map as
  it says.
\<close>

theorem cleanup_link_cuts_at_first_marker:
  "(\<not> (\<exists>p s. l = p @ ''?utm'' @ s) \<longrightarrow> cleanup_link l = l) \<and>
   (\<forall>p s. l = p @ ''?utm'' @ s \<and>
          (\<forall>p' s'. l = p' @ ''?utm'' @ s' \<longrightarrow> length p \<le> length p') \<longrightarrow>
          cleanup_link l = p) \<and>
   cleanup_link ''https://example.com/a?utm_source=x'' = ''https://example.com/a'' \<and>
   cleanup_link ''https://example.com/a?x=1'' = ''https://example.com/a?x=1''"
proof (intro conjI allI impI)
  assume "\<not> (\<exists>p s. l = p @ ''?utm'' @ s)"
  then show "cleanup_link l = l"
    unfolding cleanup_link_def by (rule split_head_absent)
next
  fix p s
  assume a: "l = p @ ''?utm'' @ s \<and>
    (\<forall>p' s'. l = p' @ ''?utm'' @ s' \<longrightarrow> length p \<le> length p')"
  have ne: "''?utm'' \<noteq> []" by simp
  from a show "cleanup_link l = p"
    unfolding cleanup_link_def using split_head_first[OF ne, of l p s] by blast
next
  show "cleanup_link ''https://example.com/a?utm_source=x'' = ''https://example.com/a''"
    by (simp add: cleanup_link_def)
next
  show "cleanup_link ''https://example.com/a?x=1'' = ''https://example.com/a?x=1''"
    by (simp add: cleanup_link_def)
qed

theorem cleanup_link_cuts_at_first_marker_witness:
  "\<not> (\<exists>p s. ''a?x'' = p @ ''?utm'' @ s) \<and> cleanup_link ''a?x'' = ''a?x'' \<and>
   ''a?utm=1'' = ''a'' @ ''?utm'' @ ''=1'' \<and> cleanup_link ''a?utm=1'' = ''a''"
proof -
  have absent: "\<not> (\<exists>p s. ''a?x'' = p @ ''?utm'' @ s)"
  proof
    assume "\<exists>p s. ''a?x'' = p @ ''?utm'' @ s"
    then obtain p s where "''a?x'' = p @ ''?utm'' @ s" by blast
    then have "length ''a?x'' = length (p @ ''?utm'' @ s)" by (rule arg_cong)
    then show False by simp
  qed
  have occ: "''a?utm=1'' = ''a'' @ ''?utm'' @ ''=1''" by simp
  have first: "\<forall>p' s'. ''a?utm=1'' = p' @ ''?utm'' @ s' \<longrightarrow> length ''a'' \<le> length p'"
  proof (intro allI impI)
    fix p' s' assume e: "''a?utm=1'' = p' @ ''?utm'' @ s'"
    show "length ''a'' \<le> length p'"
    proof (cases p')
      case Nil
      with e show ?thesis by simp
    next
      case (Cons c cs)
      then show ?thesis by simp
    qed
  qed
  from cleanup_link_cuts_at_first_marker[of "''a?x''"] absent
  have 1: "cleanup_link ''a?x'' = ''a?x''" by blast
  from cleanup_link_cuts_at_first_marker[of "''a?utm=1''"] occ first
  have 2: "cleanup_link ''a?utm=1'' = ''a''" by blast
  from absent 1 occ 2 show ?thesis by blast
qed

section \<open>Rule evaluation and the pipeline\<close>

lemma any_fullmatch_compiled:
  "re p = Some m \<Longrightarrow> any_fullmatch re p cs = Inr (list_ex m cs)"
  by (induction cs) (auto simp: re_fullmatch_def split: bool.splits)

lemma when_set_single:
  "pattern_compiles re pat \<Longrightarrow>
   when_set pat (\<lambda>p. re_fullmatch re p v) = Inr (spec_pattern_matches re pat [v])"
  by (auto simp: pattern_compiles_def when_set_def spec_pattern_matches_def re_fullmatch_def
      split: option.splits)

lemma when_set_any:
  "pattern_compiles re pat \<Longrightarrow>
   when_set pat (\<lambda>p. any_fullmatch re p cs) = Inr (spec_pattern_matches re pat cs)"
  by (auto simp: pattern_compiles_def when_set_def spec_pattern_matches_def
      any_fullmatch_compiled split: option.splits)

lemma return_true_or_Inr: "return_true_or (Inr a) (Inr b) = Inr (a \<or> b)"
  by (simp add: return_true_or_def split: bool.splits)

lemma check_filters_valid:
  "valid_rules re rules \<Longrightarrow> check_filters re item rules = Inr (spec_matches re item rules)"
proof (induction rules)
  case Nil
  show ?case by (simp add: spec_matches_def)
next
  case (Cons filt rules)
  from Cons.prems have c: "pattern_compiles re (FilterConfig.title filt)"
    "pattern_compiles re (category filt)" "pattern_compiles re (FilterConfig.creator filt)"
    and v: "valid_rules re rules"
    by (simp_all add: valid_rules_def)
  have tail: "check_filters re item rules = Inr (spec_matches re item rules)"
    using Cons.IH[OF v] .
  show ?case
    by (simp add: when_set_single[OF c(1)] when_set_any[OF c(2)] when_set_single[OF c(3)]
        tail return_true_or_Inr spec_matches_def spec_rule_matches_def)
qed

lemma is_blocked_valid:
  assumes "valid_rules re (exclude cfg)" and "valid_rules re (include' cfg)"
  shows "is_blocked re item cfg = Inr (\<not> spec_classify re cfg item)"
  by (simp add: is_blocked_def check_filters_valid[OF assms(1)] check_filters_valid[OF assms(2)]
      spec_classify_def split: bool.splits)

lemma add_all_Cons: "add_all s ((i, p) # calls) = add_all (add s i p) calls"
  by (simp add: add_all_def)

lemma process_loop_total:
  assumes "\<forall>i \<in> set xs. \<exists>b. is_blocked re i cfg = Inr b"
  shows "process_loop re cfg xs stats =
     (filter (\<lambda>i. is_blocked re i cfg = Inr False) xs, None,
      add_all stats (map (\<lambda>i. (i, is_blocked re i cfg = Inr False)) xs))"
  using assms
proof (induction xs arbitrary: stats)
  case Nil
  show ?case by (simp add: add_all_def)
next
  case (Cons x xs)
  from Cons.prems obtain b where b: "is_blocked re x cfg = Inr b" by auto
  from Cons.prems have rest: "\<forall>i \<in> set xs. \<exists>b. is_blocked re i cfg = Inr b" by simp
  show ?case
    by (cases b) (simp_all add: b Cons.IH[OF rest] add_all_Cons)
qed


lemma any_fullmatch_errors:
  "any_fullmatch re p cs = Inl e \<Longrightarrow> e = RegexError \<and> re p = None"
  by (induction cs) (auto simp: re_fullmatch_def split: option.splits bool.splits)

lemma check_filters_errors:
  "check_filters re item rules = Inl e \<Longrightarrow> e = RegexError \<and> \<not> valid_rules re rules"
proof (induction rules arbitrary: e)
  case Nil
  then show ?case by simp
next
  case (Cons filt rules)
  show ?case
  proof (cases "check_filters re item rules")
    case (Inl e')
    from Cons.IH[OF Inl] have e': "e' = RegexError" and nv: "\<not> valid_rules re rules"
      by simp_all
    from nv have "\<not> valid_rules re (filt # rules)" by (simp add: valid_rules_def)
    moreover from Cons.prems Inl e' have "e = RegexError"
      by (auto simp: return_true_or_def when_set_def re_fullmatch_def
          split: option.splits bool.splits sum.splits dest: any_fullmatch_errors)
    ultimately show ?thesis by simp
  next
    case (Inr b)
    with Cons.prems show ?thesis
      by (auto simp: return_true_or_def when_set_def re_fullmatch_def valid_rules_def
          pattern_compiles_def
          split: option.splits bool.splits sum.splits dest: any_fullmatch_errors)
  qed
qed

lemma any_fullmatch_returns:
  "any_fullmatch re p cs = Inr x \<Longrightarrow> x = spec_pattern_matches re (Some p) cs"
proof (cases "re p")
  case None
  assume a: "any_fullmatch re p cs = Inr x"
  show ?thesis
  proof (cases cs)
    case Nil
    with a show ?thesis by (simp add: spec_pattern_matches_def split: option.splits)
  next
    case (Cons c cs')
    with a None show ?thesis by (simp add: re_fullmatch_def)
  qed
next
  case (Some m)
  assume "any_fullmatch re p cs = Inr x"
  with any_fullmatch_compiled[where re = re and p = p and m = m and cs = cs, OF Some] Some
  show ?thesis
    by (simp add: spec_pattern_matches_def)
qed

lemma when_set_single_returns:
  "when_set pat (\<lambda>p. re_fullmatch re p v) = Inr x \<Longrightarrow> x = spec_pattern_matches re pat [v]"
  by (auto simp: when_set_def re_fullmatch_def spec_pattern_matches_def split: option.splits)

lemma when_set_any_returns:
  "when_set pat (\<lambda>p. any_fullmatch re p cs) = Inr x \<Longrightarrow> x = spec_pattern_matches re pat cs"
  by (cases pat) (auto simp: when_set_def spec_pattern_matches_def dest: any_fullmatch_returns)

lemma return_true_or_returns:
  "return_true_or a (return_true_or b (return_true_or c d)) = Inr x \<Longrightarrow>
   (a = Inr True \<and> x) \<or>
   (a = Inr False \<and> b = Inr True \<and> x) \<or>
   (a = Inr False \<and> b = Inr False \<and> c = Inr True \<and> x) \<or>
   (a = Inr False \<and> b = Inr False \<and> c = Inr False \<and> d = Inr x)"
  by (auto simp: return_true_or_def split: sum.splits bool.splits)

lemma check_filters_returns:
  "check_filters re item rules = Inr b \<Longrightarrow> b = spec_matches re item rules"
proof (induction rules arbitrary: b)
  case Nil
  then show ?case by (simp add: spec_matches_def)
next
  case (Cons filt rules)
  let ?t = "when_set (FilterConfig.title filt) (\<lambda>p. re_fullmatch re p (FeedItem.title item))"
  let ?c = "when_set (category filt) (\<lambda>p. any_fullmatch re p (categories item))"
  let ?r = "when_set (FilterConfig.creator filt) (\<lambda>p. re_fullmatch re p (FeedItem.creator item))"
  let ?T = "spec_pattern_matches re (FilterConfig.title filt) [FeedItem.title item]"
  let ?C = "spec_pattern_matches re (category filt) (categories item)"
  let ?R = "spec_pattern_matches re (FilterConfig.creator filt) [FeedItem.creator item]"
  have sm: "spec_matches re item (filt # rules) = (?T \<or> ?C \<or> ?R \<or> spec_matches re item rules)"
    by (simp add: spec_matches_def spec_rule_matches_def)
  have t: "?T = x" if "?t = Inr x" for x
    using when_set_single_returns[OF that] by simp
  have c: "?C = x" if "?c = Inr x" for x
    using when_set_any_returns[OF that] by simp
  have r: "?R = x" if "?r = Inr x" for x
    using when_set_single_returns[OF that] by simp
  from Cons.prems have "return_true_or ?t (return_true_or ?c (return_true_or ?r
      (check_filters re item rules))) = Inr b"
    by simp
  from return_true_or_returns[OF this]
  consider "?t = Inr True" "b"
    | "?t = Inr False" "?c = Inr True" "b"
    | "?t = Inr False" "?c = Inr False" "?r = Inr True" "b"
    | "?t = Inr False" "?c = Inr False" "?r = Inr False" "check_filters re item rules = Inr b"
    by blast
  then show ?case
  proof cases
    case 1
    with t[of True] show ?thesis unfolding sm by simp
  next
    case 2
    with c[of True] show ?thesis unfolding sm by simp
  next
    case 3
    with r[of True] show ?thesis unfolding sm by simp
  next
    case 4
    from Cons.IH[OF 4(4)] t[OF 4(1)] c[OF 4(2)] r[OF 4(3)] show ?thesis unfolding sm by simp
  qed
qed

lemma is_blocked_returns:
  "is_blocked re item cfg = Inr b \<Longrightarrow> b = (\<not> spec_classify re cfg item)"
  by (auto simp: is_blocked_def spec_classify_def split: sum.splits bool.splits
      dest: check_filters_returns)

lemma is_blocked_errors: "is_blocked re item cfg = Inl e \<Longrightarrow> e = RegexError"
  by (auto simp: is_blocked_def split: sum.splits bool.splits dest: check_filters_errors)

lemma process_loop_general:
  "process_loop re cfg xs stats =
     (filter (\<lambda>i. is_blocked re i cfg = Inr False) (takeWhile (evaluates re cfg) xs),
      if list_all (evaluates re cfg) xs then None else Some RegexError,
      add_all stats (map (\<lambda>i. (i, is_blocked re i cfg = Inr False))
        (takeWhile (evaluates re cfg) xs)))"
proof (induction xs arbitrary: stats)
  case Nil
  show ?case by (simp add: add_all_def)
next
  case (Cons x xs)
  show ?case
  proof (cases "is_blocked re x cfg")
    case (Inl e)
    with is_blocked_errors[OF Inl] show ?thesis
      by (simp add: evaluates_def add_all_def)
  next
    case (Inr b)
    then show ?thesis
      by (cases b) (simp_all add: evaluates_def Cons.IH add_all_Cons)
  qed
qed

lemma spec_pattern_matches_iff:
  "spec_pattern_matches re pat vs \<longleftrightarrow>
     (\<exists>p m v. pat = Some p \<and> re p = Some m \<and> v \<in> set vs \<and> m v)"
  by (cases pat; cases "re (the pat)") (auto simp: spec_pattern_matches_def list_ex_iff)

lemma spec_matches_iff:
  "spec_matches re item rules \<longleftrightarrow>
     (\<exists>filt \<in> set rules.
        (\<exists>p m. FilterConfig.title filt = Some p \<and> re p = Some m \<and> m (FeedItem.title item)) \<or>
        (\<exists>p m c. category filt = Some p \<and> re p = Some m \<and> c \<in> set (categories item) \<and> m c) \<or>
        (\<exists>p m. FilterConfig.creator filt = Some p \<and> re p = Some m \<and> m (FeedItem.creator item)))"
  unfolding spec_matches_def spec_rule_matches_def spec_pattern_matches_iff list_ex_iff
  by simp

text \<open>
  Claim C2. For every entry and rule list, whenever \<open>check_filters\<close> returns it returns
  whether some rule of the list has a pattern that is set and fully matches (ignoring
  case) the title, one of the categories, or the creator of the entry; whenever the
  pipeline's test returns, the entry is blocked exactly when an exclude rule matches and
  no include rule does, and passes otherwise. When every pattern of the two rule lists
  compiles both do return, and the entry passes (is yielded and recorded as passed) or
  is blocked by that formula. An entry matching an exclude and an include rule passes,
  and so does an entry matching no exclude rule.
\<close>

theorem classification_formula:
  "(valid_rules re (exclude cfg) \<and> valid_rules re (include' cfg) \<longrightarrow>
      check_filters re item (exclude cfg) = Inr (spec_matches re item (exclude cfg)) \<and>
      check_filters re item (include' cfg) = Inr (spec_matches re item (include' cfg)) \<and>
      is_blocked re item cfg = Inr (\<not> spec_classify re cfg item) \<and>
      process_feed_items re [item] cfg stats =
        (if spec_classify re cfg item then [item] else [], None,
         add stats item (spec_classify re cfg item))) \<and>
   (check_filters re item rules = Inr m \<longrightarrow> m = spec_matches re item rules) \<and>
   (is_blocked re item cfg = Inr b \<longrightarrow> b = (\<not> spec_classify re cfg item)) \<and>
   (check_filters re item (exclude cfg) = Inr True \<and>
    check_filters re item (include' cfg) = Inr True \<longrightarrow>
      is_blocked re item cfg = Inr False) \<and>
   (check_filters re item (exclude cfg) = Inr False \<longrightarrow>
      is_blocked re item cfg = Inr False)"
proof -
  have total: "check_filters re item (exclude cfg) = Inr (spec_matches re item (exclude cfg)) \<and>
      check_filters re item (include' cfg) = Inr (spec_matches re item (include' cfg)) \<and>
      is_blocked re item cfg = Inr (\<not> spec_classify re cfg item) \<and>
      process_feed_items re [item] cfg stats =
        (if spec_classify re cfg item then [item] else [], None,
         add stats item (spec_classify re cfg item))"
    if v: "valid_rules re (exclude cfg)" "valid_rules re (include' cfg)"
  proof -
    have b: "is_blocked re item cfg = Inr (\<not> spec_classify re cfg item)"
      using is_blocked_valid[OF v] .
    have "process_loop re cfg [item] stats =
        (if spec_classify re cfg item then [item] else [], None,
         add stats item (spec_classify re cfg item))"
      by (simp add: b)
    then have "process_feed_items re [item] cfg stats =
        (if spec_classify re cfg item then [item] else [], None,
         add stats item (spec_classify re cfg item))"
      by (simp add: process_feed_items_def unicalize_def)
    with check_filters_valid[OF v(1)] check_filters_valid[OF v(2)] b show ?thesis by blast
  qed
  have 1: "check_filters re item (exclude cfg) = Inr True \<and>
          check_filters re item (include' cfg) = Inr True \<longrightarrow>
            is_blocked re item cfg = Inr False"
    by (simp add: is_blocked_def)
  have 2: "check_filters re item (exclude cfg) = Inr False \<longrightarrow>
            is_blocked re item cfg = Inr False"
    by (simp add: is_blocked_def)
  from total check_filters_returns[of re item rules m] is_blocked_returns[of re item cfg b] 1 2
  show ?thesis by blast
qed

theorem classification_formula_witness:
  "valid_rules re_lite (exclude example_config) \<and>
   valid_rules re_lite (include' example_config) \<and>
   check_filters re_lite (example_item ''Important Update'' ''g1'' ''spambot'' [])
     (exclude example_config) = Inr True \<and>
   check_filters re_lite (example_item ''Important Update'' ''g1'' ''spambot'' [])
     (include' example_config) = Inr True \<and>
   process_feed_items re_lite [example_item ''Important Update'' ''g1'' ''spambot'' []]
     example_config empty_stats =
     ([example_item ''Important Update'' ''g1'' ''spambot'' []], None,
      \<lparr>passed = [(''Important Update'', example_item ''Important Update'' ''g1'' ''spambot'' [])],
       blocked = []\<rparr>)"
proof -
  let ?item = "example_item ''Important Update'' ''g1'' ''spambot'' []"
  have v1: "valid_rules re_lite (exclude example_config)" by code_simp
  have v2: "valid_rules re_lite (include' example_config)" by code_simp
  have m1: "spec_matches re_lite ?item (exclude example_config) = True" by code_simp
  have m2: "spec_matches re_lite ?item (include' example_config) = True" by code_simp
  have c: "spec_classify re_lite example_config ?item = True" by code_simp
  have a: "add empty_stats ?item True =
      \<lparr>passed = [(''Important Update'', ?item)], blocked = []\<rparr>"
    by code_simp
  from classification_formula[of re_lite example_config ?item empty_stats] v1 v2
  show ?thesis unfolding m1 m2 c a by simp
qed

text \<open>
  Claim C4. The pipeline, run over any input sequence with any ledger, works through the
  entries that survive deduplication, in order, up to the first entry (if any) on which
  rule evaluation raises: for each of them it calls \<open>add\<close> once, with the flag "not
  blocked", and it yields exactly those whose flag is "passed", in the order they have
  after deduplication. When every pattern of the feed's rules compiles, no evaluation
  raises: every surviving entry is recorded once and the run ends with no error.
\<close>

theorem pipeline_contract:
  "process_feed_items re items cfg stats =
     (filter (\<lambda>i. is_blocked re i cfg = Inr False)
        (takeWhile (evaluates re cfg) (unicalize items)),
      if list_all (evaluates re cfg) (unicalize items) then None else Some RegexError,
      add_all stats
        (map (\<lambda>i. (i, is_blocked re i cfg = Inr False))
           (takeWhile (evaluates re cfg) (unicalize items)))) \<and>
   (valid_rules re (exclude cfg) \<and> valid_rules re (include' cfg) \<longrightarrow>
      process_feed_items re items cfg stats =
        (filter (\<lambda>i. is_blocked re i cfg = Inr False) (unicalize items), None,
         add_all stats
           (map (\<lambda>i. (i, is_blocked re i cfg = Inr False)) (unicalize items)))) \<and>
   subseq (fst (process_feed_items re items cfg stats)) (unicalize items)"
proof -
  have g: "process_feed_items re items cfg stats =
     (filter (\<lambda>i. is_blocked re i cfg = Inr False)
        (takeWhile (evaluates re cfg) (unicalize items)),
      if list_all (evaluates re cfg) (unicalize items) then None else Some RegexError,
      add_all stats
        (map (\<lambda>i. (i, is_blocked re i cfg = Inr False))
           (takeWhile (evaluates re cfg) (unicalize items))))"
    by (simp only: process_feed_items_def process_loop_general)
  have t: "process_feed_items re items cfg stats =
        (filter (\<lambda>i. is_blocked re i cfg = Inr False) (unicalize items), None,
         add_all stats
           (map (\<lambda>i. (i, is_blocked re i cfg = Inr False)) (unicalize items)))"
    if v: "valid_rules re (exclude cfg)" "valid_rules re (include' cfg)"
  proof -
    have "\<forall>i \<in> set (unicalize items). \<exists>b. is_blocked re i cfg = Inr b"
      using is_blocked_valid[OF v] by blast
    from process_loop_total[OF this] show ?thesis
      by (simp add: process_feed_items_def)
  qed
  have "subseq (takeWhile (evaluates re cfg) (unicalize items)) (unicalize items)"
    by (metis prefix_imp_subseq takeWhile_is_prefix)
  then have "subseq (filter (\<lambda>i. is_blocked re i cfg = Inr False)
        (takeWhile (evaluates re cfg) (unicalize items))) (unicalize items)"
    using subseq_filter_left subseq_order.trans by blast
  then have s: "subseq (fst (process_feed_items re items cfg stats)) (unicalize items)"
    by (simp add: g)
  from g t s show ?thesis by blast
qed

theorem pipeline_contract_witness:
  "valid_rules re_lite (exclude example_config) \<and>
   valid_rules re_lite (include' example_config) \<and>
   process_feed_items re_lite
     [example_item ''Important Update'' ''g1'' ''spambot'' [],
      example_item ''Buy now'' ''g2'' ''spammer'' [],
      example_item ''Hello'' ''g3'' ''ann'' [],
      example_item ''Copy'' ''g1'' ''ann'' []]
     example_config empty_stats =
     ([example_item ''Important Update'' ''g1'' ''spambot'' [],
       example_item ''Hello'' ''g3'' ''ann'' []], None,
      \<lparr>passed = [(''Important Update'', example_item ''Important Update'' ''g1'' ''spambot'' []),
                 (''Hello'', example_item ''Hello'' ''g3'' ''ann'' [])],
       blocked = [(''Buy now'', example_item ''Buy now'' ''g2'' ''spammer'' [])]\<rparr>)"
proof -
  let ?items = "[example_item ''Important Update'' ''g1'' ''spambot'' [],
      example_item ''Buy now'' ''g2'' ''spammer'' [],
      example_item ''Hello'' ''g3'' ''ann'' [],
      example_item ''Copy'' ''g1'' ''ann'' []]"
  have v1: "valid_rules re_lite (exclude example_config)" by code_simp
  have v2: "valid_rules re_lite (include' example_config)" by code_simp
  have r: "(filter (\<lambda>i. is_blocked re_lite i example_config = Inr False) (unicalize ?items),
            None :: error option,
            add_all empty_stats
              (map (\<lambda>i. (i, is_blocked re_lite i example_config = Inr False)) (unicalize ?items)))
     = ([example_item ''Important Update'' ''g1'' ''spambot'' [],
       example_item ''Hello'' ''g3'' ''ann'' []], None,
      \<lparr>passed = [(''Important Update'', example_item ''Important Update'' ''g1'' ''spambot'' []),
                 (''Hello'', example_item ''Hello'' ''g3'' ''ann'' [])],
       blocked = [(''Buy now'', example_item ''Buy now'' ''g2'' ''spammer'' [])]\<rparr>)"
    by code_simp
  from pipeline_contract[of re_lite ?items example_config empty_stats] v1 v2
  show ?thesis unfolding r by blast
qed

section \<open>The aggregated views\<close>

lemma map_of_counter_fold:
  "map_of (foldl counter_step d xs) k =
     (if k \<in> set xs
      then Some ((case map_of d k of None \<Rightarrow> 0 | Some n \<Rightarrow> n) + int (count_list xs k))
      else map_of d k)"
proof (induction xs arbitrary: d)
  case Nil
  show ?case by simp
next
  case (Cons x xs)
  show ?case
    by (simp add: Cons.IH) (auto simp: counter_step_def update_conv')
qed

lemma distinct_counter_fold:
  "distinct (map fst d) \<Longrightarrow> distinct (map fst (foldl counter_step d xs))"
  by (induction xs arbitrary: d) (simp_all add: counter_step_def distinct_update)

lemma map_of_Counter:
  "map_of (Counter xs) k = (if k \<in> set xs then Some (int (count_list xs k)) else None)"
  by (simp add: Counter_def map_of_counter_fold)

lemma distinct_Counter: "distinct (map fst (Counter xs))"
  by (simp add: Counter_def distinct_counter_fold)

lemma set_Counter: "(k, n) \<in> set (Counter xs) \<longleftrightarrow> k \<in> set xs \<and> n = int (count_list xs k)"
  using map_of_eq_Some_iff[OF distinct_Counter, of xs k n] by (auto simp: map_of_Counter split: if_splits)

lemma set_sorted_reverse: "set (sorted_reverse xs) = set xs"
  by (simp add: sorted_reverse_def)

lemma distinct_sorted_reverse: "distinct (sorted_reverse xs) = distinct xs"
  by (simp add: sorted_reverse_def)

lemma sorted_reverse_descending: "sorted_wrt (\<lambda>a b. a \<ge> b) (sorted_reverse xs)"
proof -
  have "sorted (sort (rev xs))" by simp
  then have "sorted_wrt (\<lambda>a b. a \<ge> b) (rev (sort (rev xs)))"
    by (simp add: sorted_wrt_rev)
  then show ?thesis by (simp add: sorted_reverse_def)
qed


lemma strict_descending:
  "sorted_wrt (\<lambda>a b. a \<ge> b) xs \<Longrightarrow> distinct xs \<Longrightarrow> sorted_wrt (\<lambda>a b. (a :: 'a :: linorder) > b) xs"
  by (induction xs) (auto simp: less_le)

lemma pair_greater:
  "(a :: int \<times> ('a :: linorder)) > b \<longleftrightarrow> fst a > fst b \<or> (fst a = fst b \<and> snd a > snd b)"
  by (cases a; cases b) (auto simp: less_prod_def)

lemma count_view_Counter:
  "count_view_of xs (sorted_reverse (map (\<lambda>(key, count). (count, key)) (Counter xs)))"
proof -
  let ?ps = "map (\<lambda>(key, count). (count, key)) (Counter xs)"
  let ?v = "sorted_reverse ?ps"
  have mem: "(n, c) \<in> set ?v \<longleftrightarrow> c \<in> set xs \<and> n = int (count_list xs c)" for n c
  proof -
    have "(n, c) \<in> set ?ps \<longleftrightarrow> (c, n) \<in> set (Counter xs)" by force
    then show ?thesis by (simp add: set_sorted_reverse set_Counter)
  qed
  have "snd \<circ> (\<lambda>(key, count). (count, key)) = (fst :: 'a \<times> int \<Rightarrow> 'a)"
    by (auto simp: fun_eq_iff)
  then have "map snd ?ps = map fst (Counter xs)" by (simp only: map_map)
  then have dsnd: "distinct (map snd ?ps)" by (simp only: distinct_Counter)
  then have dps: "distinct ?ps" and inj: "inj_on snd (set ?ps)"
    by (simp_all only: distinct_map)
  from dps have dvs: "distinct ?v" by (simp only: distinct_sorted_reverse)
  from inj have "inj_on snd (set ?v)" by (simp only: set_sorted_reverse)
  with dvs have dv: "distinct (map snd ?v)" by (simp only: distinct_map)
  note dvs
  with sorted_reverse_descending[of ?ps] have "sorted_wrt (\<lambda>a b. a > b) ?v"
    by (rule strict_descending)
  then have srt: "sorted_wrt (\<lambda>a b. fst a > fst b \<or> (fst a = fst b \<and> snd a > snd b)) ?v"
    by (simp add: pair_greater[abs_def])
  from mem dv srt show ?thesis unfolding count_view_of_def by blast
qed


text \<open>
  Claim C5. For every ledger, each of the four views is the count view of its labels:
  the categories of all entries held in the passed (or blocked) mapping, with
  repetitions, for the category views, and the creators of those entries for the creator
  views. Each label that occurs is listed once with the number of its occurrences, and
  the list descends by count and, among equal counts, by label. The views are functions
  of the ledger alone.
\<close>

theorem aggregated_views:
  "count_view_of (concat (map categories (dict_values (passed stats))))
     (passed_categories stats) \<and>
   count_view_of (concat (map categories (dict_values (blocked stats))))
     (blocked_categories stats) \<and>
   count_view_of (map FeedItem.creator (dict_values (passed stats))) (passed_creators stats) \<and>
   count_view_of (map FeedItem.creator (dict_values (blocked stats))) (blocked_creators stats)"
  unfolding passed_categories_def blocked_categories_def passed_creators_def
    blocked_creators_def
  by (intro conjI count_view_Counter)

theorem aggregated_views_witness:
  "passed_categories
     \<lparr>passed = [(''T1'', example_item ''T1'' ''g1'' ''ann'' [''b'', ''a'', ''b'']),
                (''T2'', example_item ''T2'' ''g2'' ''bob'' [''a'', ''c''])],
      blocked = []\<rparr> = [(2, ''b''), (2, ''a''), (1, ''c'')] \<and>
   count_view_of [''b'', ''a'', ''b'', ''a'', ''c''] [(2, ''b''), (2, ''a''), (1, ''c'')]"
proof -
  let ?s = "\<lparr>passed = [(''T1'', example_item ''T1'' ''g1'' ''ann'' [''b'', ''a'', ''b'']),
                (''T2'', example_item ''T2'' ''g2'' ''bob'' [''a'', ''c''])],
      blocked = []\<rparr>"
  have e: "passed_categories ?s = [(2, ''b''), (2, ''a''), (1, ''c'')]" by code_simp
  have l: "concat (map categories (dict_values (passed ?s))) = [''b'', ''a'', ''b'', ''a'', ''c'']"
    by code_simp
  from aggregated_views[of ?s]
  have "count_view_of (concat (map categories (dict_values (passed ?s)))) (passed_categories ?s)"
    by blast
  then have "count_view_of [''b'', ''a'', ''b'', ''a'', ''c''] [(2, ''b''), (2, ''a''), (1, ''c'')]"
    unfolding e l .
  with e show ?thesis by blast
qed

section \<open>The parser and the serializer\<close>

lemma find_tag_append:
  "List.find P (xs @ ys) = (case List.find P xs of None \<Rightarrow> List.find P ys | Some x \<Rightarrow> Some x)"
  by (induction xs) auto

lemma find_other_tag:
  "t \<noteq> t' \<Longrightarrow> List.find (\<lambda>c. tag c = t) (map (SubElement_text t') xs) = None"
  by (induction xs) (auto simp: SubElement_text_def)

lemma filter_other_tag:
  "t \<noteq> t' \<Longrightarrow> filter (\<lambda>c. tag c = t) (map (SubElement_text t') xs) = []"
  by (induction xs) (auto simp: SubElement_text_def)

lemma filter_same_tag:
  "filter (\<lambda>c. tag c = t) (map (SubElement_text t) xs) = map (SubElement_text t) xs"
  by (induction xs) (auto simp: SubElement_text_def)

lemma item_find_title:
  "Element_find ''title'' (item_element item) = Some (SubElement_text ''title'' (FeedItem.title item))"
  by (simp add: Element_find_def item_element_def SubElement_text_def)

lemma item_find_guid:
  "Element_find ''guid'' (item_element item) = Some (guid_element item)"
  by (simp add: Element_find_def item_element_def SubElement_text_def guid_element_def)

lemma item_find_link:
  "Element_find ''link'' (item_element item) = Some (SubElement_text ''link'' (link item))"
  by (simp add: Element_find_def item_element_def SubElement_text_def guid_element_def)

lemma item_find_description:
  "Element_find ''description'' (item_element item) =
     Some (SubElement_text ''description'' (description item))"
  by (simp add: Element_find_def item_element_def SubElement_text_def guid_element_def)

lemma item_find_pub_date:
  "Element_find ''pubDate'' (item_element item) = Some (SubElement_text ''pubDate'' (pub_date item))"
  by (simp add: Element_find_def item_element_def SubElement_text_def guid_element_def)

lemma dc_creator_not_category: "dc_creator \<noteq> ''category''"
  by (simp add: dc_creator_def)

lemma item_find_creator:
  "Element_find dc_creator (item_element item) =
     Some (SubElement_text dc_creator (FeedItem.creator item))"
proof -
  have "List.find (\<lambda>c. tag c = dc_creator)
          (map (SubElement_text ''category'') (categories item)) = None"
    by (rule find_other_tag[OF dc_creator_not_category])
  then show ?thesis
    by (simp add: Element_find_def item_element_def find_tag_append)
       (simp add: SubElement_text_def guid_element_def dc_creator_def)
qed

lemma item_findall_category:
  "Element_findall ''category'' (item_element item) =
     map (SubElement_text ''category'') (categories item)"
proof -
  have "filter (\<lambda>c. tag c = ''category'')
          (map (SubElement_text ''category'') (categories item)) =
        map (SubElement_text ''category'') (categories item)"
    by (rule filter_same_tag)
  then show ?thesis
    by (simp add: Element_findall_def item_element_def)
       (simp add: SubElement_text_def guid_element_def dc_creator_def)
qed

lemma parse_item_item_element:
  "parse_item (item_element item) =
     (if guid_permalink item \<noteq> [] then Inr (item\<lparr>link := cleanup_link (link item)\<rparr>)
      else Inl ValidationError)"
proof -
  have cats: "map text_of (map (SubElement_text ''category'') cs) = map Some cs" for cs
    by (induction cs) (simp_all add: SubElement_text_def)
  have the: "map the (map Some cs) = cs" for cs :: "string list"
    by (induction cs) simp_all
  show ?thesis
    unfolding parse_item_def item_find_title item_find_guid item_find_link
      item_find_description item_find_pub_date item_find_creator item_findall_category
      deref_def cats
    by (cases item) (simp add: SubElement_text_def guid_element_def FeedItem_init_def the list_all_iff)
qed


lemma channel_items_feed_tree: "channel_items (feed_tree items) = map item_element items"
proof -
  have "filter (\<lambda>c. tag c = ''item'') (map item_element items) = map item_element items"
    by (induction items) (simp_all add: item_element_def)
  then show ?thesis
    by (simp add: channel_items_def feed_tree_def Element_findall_def SubElement_text_def)
qed

lemma parse_items_item_elements:
  "\<forall>i \<in> set items. guid_permalink i \<noteq> [] \<Longrightarrow>
   parse_items (map item_element items) =
     (map (\<lambda>i. i\<lparr>link := cleanup_link (link i)\<rparr>) items, None)"
  by (induction items) (simp_all add: parse_item_item_element)

lemma parse_items_stops:
  "i < length es \<Longrightarrow> parse_item (es ! i) = Inl err \<Longrightarrow>
   \<exists>ys e. parse_items es = (ys, Some e) \<and> length ys \<le> i \<and>
     ((\<forall>j < i. \<exists>x. parse_item (es ! j) = Inr x) \<longrightarrow> e = err \<and> length ys = i)"
proof (induction es arbitrary: i)
  case Nil
  then show ?case by simp
next
  case (Cons a es)
  show ?case
  proof (cases "parse_item a")
    case (Inl e0)
    show ?thesis
    proof (cases i)
      case 0
      with Inl Cons.prems show ?thesis by simp
    next
      case (Suc k)
      with Inl show ?thesis by auto
    qed
  next
    case (Inr x)
    show ?thesis
    proof (cases i)
      case 0
      with Inr Cons.prems show ?thesis by simp
    next
      case (Suc k)
      with Cons.prems have "k < length es" and "parse_item (es ! k) = Inl err" by simp_all
      from Cons.IH[OF this] obtain ys e where r: "parse_items es = (ys, Some e)"
        "length ys \<le> k"
        "(\<forall>j < k. \<exists>x. parse_item (es ! j) = Inr x) \<longrightarrow> e = err \<and> length ys = k"
        by blast
      have "(\<forall>j < i. \<exists>x. parse_item ((a # es) ! j) = Inr x) \<longrightarrow>
            (\<forall>j < k. \<exists>x. parse_item (es ! j) = Inr x)"
        using Suc by auto
      with r Inr Suc show ?thesis by auto
    qed
  qed
qed

lemma parse_item_missing:
  "\<exists>t \<in> set mandatory_tags. Element_find t e = None \<Longrightarrow> parse_item e = Inl AttributeError"
  by (auto simp: mandatory_tags_def parse_item_def deref_def split: option.splits)

lemma parse_item_errors:
  "parse_item e = Inl err \<Longrightarrow> err = AttributeError \<or> err = ValidationError"
  by (auto simp: parse_item_def deref_def FeedItem_init_def split: option.splits if_splits)

lemma parse_items_errors:
  "parse_items es = (ys, Some err) \<Longrightarrow> err = AttributeError \<or> err = ValidationError"
proof (induction es arbitrary: ys)
  case Nil
  then show ?case by simp
next
  case (Cons a es)
  show ?case
  proof (cases "parse_item a")
    case (Inl e0)
    with Cons.prems parse_item_errors[OF Inl] show ?thesis by simp
  next
    case (Inr x)
    with Cons.prems obtain zs where "parse_items es = (zs, Some err)"
      by (auto split: prod.splits)
    from Cons.IH[OF this] show ?thesis .
  qed
qed


lemma find_filter_implied:
  "(\<And>x. P x \<Longrightarrow> Q x) \<Longrightarrow> List.find P (filter Q xs) = List.find P xs"
  by (induction xs) auto

lemma find_without_categories:
  "t \<noteq> ''category'' \<Longrightarrow> Element_find t (without_categories e) = Element_find t e"
  by (simp add: Element_find_def without_categories_def find_filter_implied)

lemma findall_without_categories: "Element_findall ''category'' (without_categories e) = []"
  by (simp add: Element_findall_def without_categories_def)

lemma parse_item_without_categories:
  "parse_item (without_categories e) =
     deref (Element_find ''title'' e) (\<lambda>title_elt.
     deref (Element_find ''guid'' e) (\<lambda>guid_elt.
     deref (Element_find ''link'' e) (\<lambda>link_elt.
     deref (text_of link_elt) (\<lambda>link_text.
     deref (Element_find ''description'' e) (\<lambda>description_elt.
     deref (Element_find ''pubDate'' e) (\<lambda>pub_date_elt.
     deref (Element_find dc_creator e) (\<lambda>creator_elt.
       FeedItem_init (text_of title_elt) (text_of guid_elt)
         (map_of (attrib guid_elt) ''isPermaLink'') (Some (cleanup_link link_text))
         (text_of description_elt) (text_of pub_date_elt)
         [] (text_of creator_elt))))))))"
  unfolding parse_item_def findall_without_categories
  by (simp add: find_without_categories dc_creator_not_category)

lemma FeedItem_init_drop_categories:
  "FeedItem_init a b c d e f cs g = Inr x \<Longrightarrow>
   FeedItem_init a b c d e f [] g = Inr (x\<lparr>categories := []\<rparr>)"
  by (auto simp: FeedItem_init_def split: if_splits)

lemma FeedItem_init_add_categories:
  "FeedItem_init a b c d e f [] g = Inr x \<Longrightarrow> list_all (\<lambda>c. c \<noteq> None) cs \<Longrightarrow>
   FeedItem_init a b c d e f cs g = Inr (x\<lparr>categories := map the cs\<rparr>)"
  by (auto simp: FeedItem_init_def split: if_splits)

lemma parse_item_zero_categories:
  "parse_item e = Inr x \<Longrightarrow> parse_item (without_categories e) = Inr (x\<lparr>categories := []\<rparr>)"
  unfolding parse_item_without_categories
  unfolding parse_item_def deref_def
  by (auto split: option.splits dest: FeedItem_init_drop_categories)

lemma parse_item_more_categories:
  "parse_item (without_categories e) = Inr x \<Longrightarrow>
   \<forall>c \<in> set (Element_findall ''category'' e). text_of c \<noteq> None \<Longrightarrow>
   parse_item e =
     Inr (x\<lparr>categories := map (\<lambda>c. the (text_of c)) (Element_findall ''category'' e)\<rparr>)"
proof -
  assume p: "parse_item (without_categories e) = Inr x"
    and t: "\<forall>c \<in> set (Element_findall ''category'' e). text_of c \<noteq> None"
  from t have all: "list_all (\<lambda>c. c \<noteq> None) (map text_of (Element_findall ''category'' e))"
    by (simp add: list_all_iff)
  have m: "map the (map text_of (Element_findall ''category'' e)) =
      map (\<lambda>c. the (text_of c)) (Element_findall ''category'' e)"
    by simp
  from p show ?thesis
    unfolding parse_item_without_categories
    unfolding parse_item_def deref_def
    by (auto split: option.splits dest!: FeedItem_init_add_categories[OF _ all] simp: m)
qed


lemma parse_dump_library:
  "fromstring (tostring (feed_tree items)) = Inr (feed_tree items) \<Longrightarrow>
   parse_feed fromstring (dump_feed tostring items) = parse_items (map item_element items)"
  by (simp add: parse_feed_def dump_feed_def channel_items_feed_tree)

text \<open>
  Claim C9. For a document that the XML library reads (it is well-formed), if the item
  node at position \<open>i\<close> lacks one of the mandatory sub-fields, the parser ends with a
  failure, having yielded entries for items before position \<open>i\<close> only; when the items
  before it parse, the failure is the AttributeError raised at that item. Category
  sub-fields are optional: an item node that parses still parses with its category
  children removed, and an item node that parses without them parses with any number
  of category children that carry text.
\<close>

theorem parse_feed_missing_field:
  assumes "fromstring content = Inr root"
      and "i < length (channel_items root)"
      and "\<exists>t \<in> set mandatory_tags. Element_find t (channel_items root ! i) = None"
  shows "(\<exists>yielded e. parse_feed fromstring content = (yielded, Some e) \<and>
            spec_ParseError e \<and> length yielded \<le> i \<and>
            ((\<forall>j < i. \<exists>x. parse_item (channel_items root ! j) = Inr x) \<longrightarrow>
               e = AttributeError \<and> length yielded = i)) \<and>
         (parse_item item = Inr x \<longrightarrow>
            parse_item (without_categories item) = Inr (x\<lparr>categories := []\<rparr>)) \<and>
         (parse_item (without_categories item) = Inr x \<and>
          (\<forall>c \<in> set (Element_findall ''category'' item). text_of c \<noteq> None) \<longrightarrow>
            parse_item item =
              Inr (x\<lparr>categories :=
                     map (\<lambda>c. the (text_of c)) (Element_findall ''category'' item)\<rparr>))"
proof -
  have bad: "parse_item (channel_items root ! i) = Inl AttributeError"
    using parse_item_missing[OF assms(3)] .
  from parse_items_stops[OF assms(2) bad]
  obtain ys e where r: "parse_items (channel_items root) = (ys, Some e)" "length ys \<le> i"
    "(\<forall>j < i. \<exists>x. parse_item (channel_items root ! j) = Inr x) \<longrightarrow>
       e = AttributeError \<and> length ys = i"
    by blast
  from parse_items_errors[OF r(1)] have "spec_ParseError e"
    by (auto simp: spec_ParseError_def)
  with r have 1: "\<exists>yielded e. parse_feed fromstring content = (yielded, Some e) \<and>
            spec_ParseError e \<and> length yielded \<le> i \<and>
            ((\<forall>j < i. \<exists>x. parse_item (channel_items root ! j) = Inr x) \<longrightarrow>
               e = AttributeError \<and> length yielded = i)"
    by (simp add: parse_feed_def assms(1))
  from 1 parse_item_zero_categories[of item x] parse_item_more_categories[of item x]
  show ?thesis by blast
qed

theorem parse_feed_missing_field_witness:
  "tree_fromstring example_document = Inr example_document \<and>
   channel_items example_document ! 1 = broken_item \<and>
   Element_find ''guid'' broken_item = None \<and>
   parse_feed tree_fromstring example_document =
     ([example_item ''A'' ''g1'' ''ann'' [''news'']], Some AttributeError) \<and>
   (\<exists>yielded e. parse_feed tree_fromstring example_document = (yielded, Some e) \<and>
      spec_ParseError e \<and> length yielded \<le> 1)"
proof -
  have h1: "tree_fromstring example_document = Inr example_document" by code_simp
  have c: "channel_items example_document ! 1 = broken_item" by code_simp
  have h2: "1 < length (channel_items example_document)" by code_simp
  have g: "Element_find ''guid'' broken_item = None" by code_simp
  have "''guid'' \<in> set mandatory_tags" by (simp add: mandatory_tags_def)
  with g c have h3: "\<exists>t \<in> set mandatory_tags.
      Element_find t (channel_items example_document ! 1) = None"
    by auto
  have v: "parse_feed tree_fromstring example_document =
     ([example_item ''A'' ''g1'' ''ann'' [''news'']], Some AttributeError)"
    by code_simp
  from parse_feed_missing_field[where fromstring = tree_fromstring
      and content = example_document and root = example_document and i = 1, OF h1 h2 h3]
  have "\<exists>yielded e. parse_feed tree_fromstring example_document = (yielded, Some e) \<and>
      spec_ParseError e \<and> length yielded \<le> 1"
    by blast
  with h1 c g v show ?thesis by blast
qed


text \<open>
  Claim C6, amended. For every sequence of entries with a non-empty
  \<open>guid_permalink\<close>, and an XML library that reads the serialized tree back as it was
  built, parsing the serialized feed yields the same entries, field for field and in
  order, with each link cut at \<^verbatim>\<open>?utm\<close>. The cut is idempotent, so entries whose
  links are already cut come back unchanged.
\<close>

theorem dump_parse_round_trip:
  assumes "fromstring (tostring (feed_tree items)) = Inr (feed_tree items)"
      and "\<forall>i \<in> set items. guid_permalink i \<noteq> []"
  shows "parse_feed fromstring (dump_feed tostring items) =
           (map (\<lambda>i. i\<lparr>link := cleanup_link (link i)\<rparr>) items, None) \<and>
         cleanup_link (cleanup_link l) = cleanup_link l \<and>
         ((\<forall>i \<in> set items. cleanup_link (link i) = link i) \<longrightarrow>
            parse_feed fromstring (dump_feed tostring items) = (items, None))"
proof -
  have e: "parse_feed fromstring (dump_feed tostring items) =
           (map (\<lambda>i. i\<lparr>link := cleanup_link (link i)\<rparr>) items, None)"
    using parse_dump_library[where fromstring = fromstring and tostring = tostring
        and items = items, OF assms(1)] parse_items_item_elements[OF assms(2)] by simp
  have "map (\<lambda>i. i\<lparr>link := cleanup_link (link i)\<rparr>) items = items"
    if "\<forall>i \<in> set items. cleanup_link (link i) = link i"
    using that by (induction items) simp_all
  with e show ?thesis
    by (simp add: cleanup_link_def split_head_idem)
qed

theorem dump_parse_round_trip_witness:
  "tree_fromstring (tree_tostring (feed_tree
      [example_item ''A'' ''g1'' ''ann'' [''x'', ''y''],
       (example_item ''B'' ''g2'' ''bob'' [])\<lparr>link := ''https://example.com/b?utm_source=rss''\<rparr>]))
     = Inr (feed_tree
      [example_item ''A'' ''g1'' ''ann'' [''x'', ''y''],
       (example_item ''B'' ''g2'' ''bob'' [])\<lparr>link := ''https://example.com/b?utm_source=rss''\<rparr>]) \<and>
   parse_feed tree_fromstring (dump_feed tree_tostring
      [example_item ''A'' ''g1'' ''ann'' [''x'', ''y''],
       (example_item ''B'' ''g2'' ''bob'' [])\<lparr>link := ''https://example.com/b?utm_source=rss''\<rparr>])
     = ([example_item ''A'' ''g1'' ''ann'' [''x'', ''y''],
         (example_item ''B'' ''g2'' ''bob'' [])\<lparr>link := ''https://example.com/b''\<rparr>], None)"
proof -
  let ?items = "[example_item ''A'' ''g1'' ''ann'' [''x'', ''y''],
       (example_item ''B'' ''g2'' ''bob'' [])\<lparr>link := ''https://example.com/b?utm_source=rss''\<rparr>]"
  have h1: "tree_fromstring (tree_tostring (feed_tree ?items)) = Inr (feed_tree ?items)"
    by code_simp
  have h2: "\<forall>i \<in> set ?items. guid_permalink i \<noteq> []"
    by (simp add: example_item_def)
  have m: "map (\<lambda>i. i\<lparr>link := cleanup_link (link i)\<rparr>) ?items =
      [example_item ''A'' ''g1'' ''ann'' [''x'', ''y''],
       (example_item ''B'' ''g2'' ''bob'' [])\<lparr>link := ''https://example.com/b''\<rparr>]"
    by code_simp
  from dump_parse_round_trip[where fromstring = tree_fromstring
      and tostring = tree_tostring and items = ?items, OF h1 h2] h1
  show ?thesis unfolding m by blast
qed

text \<open>
  The claim as stated fails: an entry whose \<open>guid_permalink\<close> is the empty string, and
  whose link is already cut, is serialized without the attribute and does not come back.
\<close>

theorem dump_parse_round_trip_counterexample:
  "parse_feed tree_fromstring
     (dump_feed tree_tostring [(example_item ''A'' ''g1'' ''ann'' [])\<lparr>guid_permalink := []\<rparr>])
   \<noteq> ([(example_item ''A'' ''g1'' ''ann'' [])\<lparr>guid_permalink := []\<rparr>], None)"
  by code_simp

text \<open>
  Claim C10. The serializer puts the \<^verbatim>\<open>isPermaLink\<close> attribute on the guid element
  exactly when \<open>guid_permalink\<close> is non-empty, and the parser looks the attribute up
  with \<^verbatim>\<open>attrib.get\<close>, which gives \<^verbatim>\<open>None\<close> when it is absent. The value never
  reaches an entry: \<open>guid_permalink\<close> is declared \<^verbatim>\<open>str\<close> and the validating
  constructor raises on \<^verbatim>\<open>None\<close>. The code evaluated at an item with every mandatory
  sub-field and a guid without the attribute, and at the serialized form of an entry
  whose \<open>guid_permalink\<close> is empty: in both runs the parser yields no entry and ends
  with a validation error.
\<close>

theorem permalink_flag_missing_raises:
  "map_of (attrib (guid_element item)) ''isPermaLink'' =
     (if guid_permalink item \<noteq> [] then Some (guid_permalink item) else None) \<and>
   FeedItem_init t g None l d p cs c = Inl ValidationError \<and>
   parse_feed tree_fromstring noflag_document = ([], Some ValidationError) \<and>
   parse_feed tree_fromstring
     (dump_feed tree_tostring [(example_item ''B'' ''g2'' ''bob'' [])\<lparr>guid_permalink := []\<rparr>])
     = ([], Some ValidationError)"
proof -
  have 1: "map_of (attrib (guid_element item)) ''isPermaLink'' =
     (if guid_permalink item \<noteq> [] then Some (guid_permalink item) else None)"
    by (simp add: guid_element_def)
  have 2: "FeedItem_init t g None l d p cs c = Inl ValidationError"
    by (simp add: FeedItem_init_def)
  have 3: "parse_feed tree_fromstring noflag_document = ([], Some ValidationError)"
    by code_simp
  have 4: "parse_feed tree_fromstring
     (dump_feed tree_tostring [(example_item ''B'' ''g2'' ''bob'' [])\<lparr>guid_permalink := []\<rparr>])
     = ([], Some ValidationError)"
    by code_simp
  from 1 2 3 4 show ?thesis by blast
qed

section \<open>Configuration loading and invalid patterns\<close>










end
